theory Spec2Isabelle
  imports Main "HOL-Library.Multiset"
begin

section \<open>Numbers\<close>

text \<open>
  \<^verbatim>\<open>MPI_Parallel_Sum_Course.c\<close> keeps the bound \<open>n\<close>, the running index \<open>i\<close>, the
  stride \<open>step\<close> and the partial sum \<open>sum\<close> in C \<open>double\<close>s. All of them hold whole
  numbers (a rank, a group size, and sums of such), so a \<open>double\<close> is modelled by the
  integer it holds, and \<open>+=\<close> by the exact sum rounded to the 53 significant bits of the
  binary64 format, ties to even. The overflow of the format beyond \<open>2 ^ 1024\<close> is left
  out: no run that returns comes near it.
\<close>

function bitlen :: "int \<Rightarrow> nat" where
  "bitlen a = (if a \<le> 0 then 0 else Suc (bitlen (a div 2)))"
  by pat_completeness auto
termination
  by (relation "measure nat") auto

declare bitlen.simps [simp del]

definition round_double :: "int \<Rightarrow> int" where
  "round_double x =
     (let a = \<bar>x\<bar>; e = bitlen a - 53
      in if e = 0 then x
         else let q = a div 2 ^ e; r = a mod 2 ^ e; h = 2 ^ (e - 1);
                  q' = (if h < r \<or> (r = h \<and> odd q) then q + 1 else q)
              in sgn x * (q' * 2 ^ e))"

definition dadd :: "int \<Rightarrow> int \<Rightarrow> int" where
  "dadd x y = round_double (x + y)"

section \<open>Collective transport\<close>

text \<open>
  What a run can end in instead of a result. \<open>PartitionError\<close> is the error the
  specification names for a group size that does not divide the dataset.
\<close>

datatype fault = InvalidRoot | ShortBuffer | SignedOverflow | NeverReturns | PartitionError

datatype collective = Bcast | Scatter | Gather | Reduce | Barrier

text \<open>
  Modelled from the spec: \<^verbatim>\<open>MPI_Bcast\<close> is a library routine; its code is not part of the
  repository. A group of \<open>P\<close> ranks is the list of the ranks' buffers, rank 0 first.
  After the call every rank's first \<open>cnt\<close> elements are the root's; what a buffer holds
  beyond \<open>cnt\<close> is not touched. A root outside the group is a fatal contract violation;
  so is a buffer shorter than the count.
\<close>

definition bcast :: "nat \<Rightarrow> nat \<Rightarrow> 'a list list \<Rightarrow> fault + 'a list list" where
  "bcast cnt root bufs =
     (if \<not> root < length bufs then Inl InvalidRoot
      else if list_ex (\<lambda>b. length b < cnt) bufs then Inl ShortBuffer
      else Inr (map (\<lambda>b. take cnt (bufs ! root) @ drop cnt b) bufs))"

text \<open>
  Modelled from the spec: \<^verbatim>\<open>MPI_Scatter\<close> is a library routine. The root's send buffer
  holds the ranks' blocks in rank order, rank 0's first; rank \<open>r\<close> receives the \<open>cnt\<close>
  elements from position \<open>r * cnt\<close> on. Elements of the send buffer beyond
  \<open>cnt * P\<close> are not sent.
\<close>

definition scatter :: "nat \<Rightarrow> nat \<Rightarrow> 'a list \<Rightarrow> 'a list list \<Rightarrow> fault + 'a list list" where
  "scatter cnt root sendbuf recvbufs =
     (if \<not> root < length recvbufs then Inl InvalidRoot
      else if length sendbuf < cnt * length recvbufs \<or> list_ex (\<lambda>b. length b < cnt) recvbufs
        then Inl ShortBuffer
      else Inr (map (\<lambda>r. take cnt (drop (r * cnt) sendbuf) @ drop cnt (recvbufs ! r))
                  [0..<length recvbufs]))"

text \<open>
  Modelled from the spec: \<^verbatim>\<open>MPI_Gather\<close> is a library routine, the inverse of scatter.
  The root's receive buffer gets the first \<open>cnt\<close> elements of every rank's send buffer,
  concatenated in rank order; what it holds beyond \<open>cnt * P\<close> is not touched.
\<close>

definition gather :: "nat \<Rightarrow> nat \<Rightarrow> 'a list list \<Rightarrow> 'a list \<Rightarrow> fault + 'a list" where
  "gather cnt root sendbufs recvbuf =
     (if \<not> root < length sendbufs then Inl InvalidRoot
      else if length recvbuf < cnt * length sendbufs \<or> list_ex (\<lambda>b. length b < cnt) sendbufs
        then Inl ShortBuffer
      else Inr (concat (map (take cnt) sendbufs) @ drop (cnt * length sendbufs) recvbuf))"

text \<open>
  Modelled from the spec: \<^verbatim>\<open>MPI_Reduce\<close> is a library routine. The root starts from rank
  0's value and combines the values of ranks 1, 2, ... into it, in this order.
\<close>

fun combine :: "('a \<Rightarrow> 'a \<Rightarrow> 'a) \<Rightarrow> 'a \<Rightarrow> 'a list \<Rightarrow> 'a" where
  "combine f acc [] = acc"
| "combine f acc (v # vs) = combine f (f acc v) vs"

definition reduce :: "('a \<Rightarrow> 'a \<Rightarrow> 'a) \<Rightarrow> nat \<Rightarrow> 'a list \<Rightarrow> fault + 'a" where
  "reduce f root vals =
     (if \<not> root < length vals then Inl InvalidRoot
      else Inr (combine f (hd vals) (tl vals)))"

text \<open>
  Modelled from the spec: the same reduction with the arrival of the contributions made
  explicit. \<open>arrival\<close> lists the ranks in the order in which their values reach the
  root in one run; the root files each value under its rank and combines by rank index
  once every rank has contributed. A rank that never contributes blocks the call.
\<close>

definition deliver :: "nat list \<Rightarrow> 'a list \<Rightarrow> nat \<rightharpoonup> 'a" where
  "deliver arrival vals = foldl (\<lambda>slots r. slots(r \<mapsto> vals ! r)) Map.empty arrival"

definition reduce_run :: "('a \<Rightarrow> 'a \<Rightarrow> 'a) \<Rightarrow> nat \<Rightarrow> nat list \<Rightarrow> 'a list \<Rightarrow> fault + 'a" where
  "reduce_run f root arrival vals =
     (if \<not> root < length vals then Inl InvalidRoot
      else if list_ex (\<lambda>r. deliver arrival vals r = None) [0..<length vals] then Inl NeverReturns
      else reduce f root (map (\<lambda>r. the (deliver arrival vals r)) [0..<length vals]))"

text \<open>
  Modelled from the spec: the contiguous shard plan. No function of the repository
  computes it; it is the block of rank \<open>r\<close> in a scatter or gather of \<open>N\<close> elements over
  \<open>P\<close> ranks, as offset and length, for the per-rank count \<open>N / P\<close> that \<open>main\<close> of
  \<^verbatim>\<open>MPI_Matrix_Vector.c\<close> passes: \<^verbatim>\<open>msize = dim * dim / csize\<close> for the matrix
  elements, \<^verbatim>\<open>to = dim / csize\<close> for the rows of the result.
\<close>

definition shard :: "nat \<Rightarrow> nat \<Rightarrow> nat \<Rightarrow> nat \<times> nat" where
  "shard N P r = (r * (N div P), N div P)"

definition in_shard :: "nat \<Rightarrow> nat \<times> nat \<Rightarrow> bool" where
  "in_shard k sh = (fst sh \<le> k \<and> k < fst sh + snd sh)"

section \<open>The range sum of \<^verbatim>\<open>MPI_Parallel_Sum_Course.c\<close>\<close>

text \<open>
  \<^verbatim>\<open>while (i <= n) { sum += i; i += step; }\<close>
  The loop leaves only when \<open>i\<close> exceeds \<open>n\<close>; \<open>None\<close> is a loop that never leaves.
  The accumulator \<open>s\<close> is the source's \<open>sum\<close>.
\<close>

partial_function (option) sum_loop :: "int \<Rightarrow> int \<Rightarrow> int \<Rightarrow> int \<Rightarrow> int option" where
  "sum_loop n step i s =
     (if i \<le> n then sum_loop n step (dadd i step) (dadd s i) else Some s)"

text \<open>
  One rank of \<open>main\<close> between the broadcast and the reduction:
  \<^verbatim>\<open>double sum = 0; double i = (double)prank; double step = (double)csize;\<close>
\<close>

definition local_sum :: "int \<Rightarrow> int \<Rightarrow> int \<Rightarrow> int option" where
  "local_sum csize prank n = sum_loop n csize prank 0"

text \<open>
  \<open>main\<close> on a group of \<open>csize\<close> ranks. Rank 0 reads \<open>input\<close>; the \<open>n\<close> of every other
  rank is uninitialised memory, \<open>uninit r\<close>. \<^verbatim>\<open>MPI_Bcast(&n, 1, MPI_DOUBLE, 0, ...)\<close> then
  \<^verbatim>\<open>MPI_Reduce(&sum, &tsum, 1, MPI_DOUBLE, MPI_SUM, 0, ...)\<close>; the result is the \<open>tsum\<close>
  that rank 0 prints. A rank whose loop never leaves never enters the reduction, and
  the reduction never returns.
\<close>

definition parallel_sum_main :: "int \<Rightarrow> int \<Rightarrow> (int \<Rightarrow> int) \<Rightarrow> fault + int" where
  "parallel_sum_main csize input uninit =
     (let ranks = [0..csize - 1];
          ns = map (\<lambda>r. [if r = 0 then input else uninit r]) ranks
      in case bcast 1 0 ns of
           Inl e \<Rightarrow> Inl e
         | Inr bufs \<Rightarrow>
             (let sums = map2 (\<lambda>r buf. local_sum csize r (hd buf)) ranks bufs
              in if list_ex (\<lambda>s. s = None) sums then Inl NeverReturns
                 else reduce dadd 0 (map the sums)))"

text \<open>
  The numbers that the loop of rank \<open>i\<close> adds up when no sum is rounded: \<open>i\<close>,
  \<open>i + step\<close>, \<open>i + 2 * step\<close>, ... up to \<open>n\<close>.
\<close>

definition stride_set :: "int \<Rightarrow> int \<Rightarrow> int \<Rightarrow> int set" where
  "stride_set n step i = {k. i \<le> k \<and> k \<le> n \<and> (k - i) mod step = 0}"

section \<open>\<^verbatim>\<open>MPI_Matrix_Vector.c\<close>\<close>

text \<open>
  Files are the lists of the numbers they hold. Array elements are of any type with a
  zero, a sum and a product: nothing is assumed of the arithmetic of \<open>double\<close>.
  Dimensions, counts and loop indices are \<open>int\<close>s that start at 0 and count up; they
  are modelled by \<open>nat\<close>, and \<open>main\<close> checks the one product that can leave the range
  of \<open>int\<close>. A read or write outside an array is the fault \<open>ShortBuffer\<close>.
  \<open>new double[k]\<close> is \<open>k\<close> uninitialised cells; \<open>junk\<close> says what they happen to hold.
\<close>

definition new_double :: "(nat \<Rightarrow> 'a) \<Rightarrow> nat \<Rightarrow> 'a list" where
  "new_double junk k = map junk [0..<k]"

text \<open>\<^verbatim>\<open>while (fscanf(f, "%lf", &tmp) != EOF) dim++;\<close>\<close>

fun returnSize :: "'a list \<Rightarrow> nat" where
  "returnSize [] = 0"
| "returnSize (tmp # f) = Suc (returnSize f)"

text \<open>
  \<^verbatim>\<open>double* res = new double[n]; double* it = res;\<close>
  \<^verbatim>\<open>while (fscanf(f, "%lf", it++) != EOF);\<close>
  Every number of the file is stored, whatever \<open>n\<close> is; \<open>loadMat\<close> is the same loop on
  \<open>n * n\<close> cells.
\<close>

fun load_loop :: "'a list \<Rightarrow> 'a list \<Rightarrow> nat \<Rightarrow> fault + 'a list" where
  "load_loop [] res it = Inr res"
| "load_loop (x # f) res it =
     (if length res \<le> it then Inl ShortBuffer else load_loop f (res[it := x]) (Suc it))"

definition loadVec :: "(nat \<Rightarrow> 'a) \<Rightarrow> 'a list \<Rightarrow> nat \<Rightarrow> fault + 'a list" where
  "loadVec junk f n = load_loop f (new_double junk n) 0"

definition loadMat :: "(nat \<Rightarrow> 'a) \<Rightarrow> 'a list \<Rightarrow> nat \<Rightarrow> fault + 'a list" where
  "loadMat junk f n = load_loop f (new_double junk (n * n)) 0"

text \<open>
  \<^verbatim>\<open>FILE* f = fopen(fname, "w");\<close>
  \<^verbatim>\<open>for (int i = 0; i != n; ++i) fprintf(f, "%lf ", res[i]);\<close>
  The file starts empty; \<open>fmt\<close> is the text that \<^verbatim>\<open>%lf\<close> prints for an element.
\<close>

function logRes_loop :: "('a \<Rightarrow> string) \<Rightarrow> 'a list \<Rightarrow> nat \<Rightarrow> nat \<Rightarrow> string \<Rightarrow> fault + string" where
  "logRes_loop fmt res n i f =
     (if i = n then Inr f
      else if length res \<le> i then Inl ShortBuffer
      else logRes_loop fmt res n (Suc i) (f @ fmt (res ! i) @ '' ''))"
  by pat_completeness auto
termination
  by (relation "measure (\<lambda>(fmt, res, n, i, f). length res - i)") auto

declare logRes_loop.simps [simp del]

definition logRes :: "('a \<Rightarrow> string) \<Rightarrow> 'a list \<Rightarrow> nat \<Rightarrow> fault + string" where
  "logRes fmt res n = logRes_loop fmt res n 0 []"

text \<open>
  The inner loop of the kernel, for local row \<open>i\<close>:
  \<^verbatim>\<open>double s = 0; for (int j = 0; j != dim; ++j) s += mat[i * dim + j] * vec[j];\<close>
\<close>

function row_loop :: "'a::{zero,plus,times} list \<Rightarrow> 'a list \<Rightarrow> nat \<Rightarrow> nat \<Rightarrow> nat \<Rightarrow> 'a \<Rightarrow> fault + 'a" where
  "row_loop mat vec dim i j s =
     (if j = dim then Inr s
      else if length vec \<le> j \<or> length mat \<le> i * dim + j then Inl ShortBuffer
      else row_loop mat vec dim i (Suc j) (s + mat ! (i * dim + j) * vec ! j))"
  by pat_completeness auto
termination
  by (relation "measure (\<lambda>(mat, vec, dim, i, j, s). length vec - j)") auto

declare row_loop.simps [simp del]

text \<open>
  The outer loop: \<^verbatim>\<open>for (int i = 0; i != to; ++i) { ...; lres[i] = s; }\<close>
\<close>

function rows_loop :: "'a::{zero,plus,times} list \<Rightarrow> 'a list \<Rightarrow> nat \<Rightarrow> nat \<Rightarrow> nat \<Rightarrow> 'a list \<Rightarrow> fault + 'a list" where
  "rows_loop mat vec dim to i lres =
     (if i = to then Inr lres
      else if length lres \<le> i then Inl ShortBuffer
      else case row_loop mat vec dim i 0 0 of
             Inl e \<Rightarrow> Inl e
           | Inr s \<Rightarrow> rows_loop mat vec dim to (Suc i) (lres[i := s]))"
  by pat_completeness auto
termination
  by (relation "measure (\<lambda>(mat, vec, dim, to, i, lres). length lres - i)") auto

declare rows_loop.simps [simp del]

text \<open>
  \<open>main\<close> on a group of \<open>csize\<close> ranks, up to the call of \<open>logRes\<close>: the collectives it
  has issued, and either a fault or the root's \<open>res\<close> with the text of \<^verbatim>\<open>Result.txt\<close>.
  \<open>vfile\<close> and \<open>mfile\<close> are the two input files, \<open>jdim r\<close> is what the uninitialised
  \<open>dim\<close> of rank \<open>r\<close> holds before the broadcast. Each rank works on its own copy of
  \<open>dim\<close>; the count of a collective is the root's.
\<close>

definition matrix_vector_main ::
  "('a::{zero,plus,times} \<Rightarrow> string) \<Rightarrow> nat \<Rightarrow> 'a list \<Rightarrow> 'a list \<Rightarrow> (nat \<Rightarrow> nat) \<Rightarrow> (nat \<Rightarrow> 'a)
     \<Rightarrow> collective list \<times> (fault + 'a list \<times> string)" where
  "matrix_vector_main fmt csize vfile mfile jdim junk =
     (let ranks = [0..<csize] in
      case bcast 1 0 (map (\<lambda>r. [if r = 0 then returnSize vfile else jdim r]) ranks) of
        Inl e \<Rightarrow> ([Bcast], Inl e)
      | Inr dims \<Rightarrow>
      let dim = (\<lambda>r. hd (dims ! r)) in
      case loadVec junk vfile (dim 0) of
        Inl e \<Rightarrow> ([Bcast], Inl e)
      | Inr vec0 \<Rightarrow>
      case bcast (dim 0) 0 (map (\<lambda>r. if r = 0 then vec0 else new_double junk (dim r)) ranks) of
        Inl e \<Rightarrow> ([Bcast, Bcast], Inl e)
      | Inr vecs \<Rightarrow>
      if list_ex (\<lambda>r. 2 ^ 31 \<le> int (dim r) * int (dim r)) ranks
        then ([Bcast, Bcast], Inl SignedOverflow)
      else
      case loadMat junk mfile (dim 0) of
        Inl e \<Rightarrow> ([Bcast, Bcast], Inl e)
      | Inr tmat \<Rightarrow>
      let msize = (\<lambda>r. dim r * dim r div csize) in
      case scatter (msize 0) 0 tmat (map (\<lambda>r. new_double junk (msize r)) ranks) of
        Inl e \<Rightarrow> ([Bcast, Bcast, Scatter], Inl e)
      | Inr mats \<Rightarrow>
      let to = (\<lambda>r. dim r div csize);
          lress = map (\<lambda>r. rows_loop (mats ! r) (vecs ! r) (dim r) (to r) 0
                             (new_double junk (to r))) ranks
      in
      case find isl lress of
        Some l \<Rightarrow> ([Bcast, Bcast, Scatter], Inl (projl l))
      | None \<Rightarrow>
      case gather (to 0) 0 (map projr lress) (new_double junk (dim 0)) of
        Inl e \<Rightarrow> ([Bcast, Bcast, Scatter, Gather], Inl e)
      | Inr res \<Rightarrow>
      case logRes fmt res (dim 0) of
        Inl e \<Rightarrow> ([Bcast, Bcast, Scatter, Gather], Inl e)
      | Inr file \<Rightarrow> ([Bcast, Bcast, Scatter, Gather], Inr (res, file)))"

text \<open>
  What the specification asks of output \<open>i\<close> of the kernel: the sum over \<open>j\<close> of
  \<open>block[i * N + j] * vector[j]\<close>, accumulated from zero in the order \<open>j = 0, ..., N - 1\<close>.
\<close>

definition dot_row :: "'a::{zero,plus,times} list \<Rightarrow> 'a list \<Rightarrow> nat \<Rightarrow> nat \<Rightarrow> 'a" where
  "dot_row block vector N i = foldl (\<lambda>s j. s + block ! (i * N + j) * vector ! j) 0 [0..<N]"

text \<open>
  What the specification asks of the result file: the elements in order, separated by a
  single space, and nothing else.
\<close>

fun spaced :: "string list \<Rightarrow> string" where
  "spaced [] = []"
| "spaced [x] = x"
| "spaced (x # y # ys) = x @ '' '' @ spaced (y # ys)"

text \<open>
  The text of \<^verbatim>\<open>%lf\<close> for a \<open>double\<close> that holds a whole number: its decimal digits, a
  point and six zeros.
\<close>

function dec :: "nat \<Rightarrow> string" where
  "dec n = (if n < 10 then [''0123456789'' ! n] else dec (n div 10) @ [''0123456789'' ! (n mod 10)])"
  by pat_completeness auto
termination
  by (relation "measure id") auto

declare dec.simps [simp del]

definition lf :: "int \<Rightarrow> string" where
  "lf x = (if x < 0 then ''-'' else []) @ dec (nat \<bar>x\<bar>) @ ''.000000''"

section \<open>\<^verbatim>\<open>MPI_Timing_Max.c\<close>\<close>

text \<open>
  \<open>main\<close> on a group whose rank \<open>r\<close> reads the clock values \<open>local_start ! r\<close> and
  \<open>local_finish ! r\<close> from \<^verbatim>\<open>MPI_Wtime\<close>:
  \<^verbatim>\<open>local_elapsed = local_finish - local_start;\<close>
  \<^verbatim>\<open>MPI_Reduce(&local_elapsed, &elapsed, 1, MPI_DOUBLE, MPI_MAX, 0, MPI_COMM_WORLD);\<close>
  The result is the \<open>elapsed\<close> that rank 0 prints.
\<close>

definition timing_max_main :: "'a::{minus,linorder} list \<Rightarrow> 'a list \<Rightarrow> fault + 'a" where
  "timing_max_main local_start local_finish =
     reduce max 0 (map2 (\<lambda>start finish. finish - start) local_start local_finish)"

section \<open>Rounding is exact on small whole numbers\<close>

lemma bitlen_le: "a < 2 ^ k \<Longrightarrow> bitlen a \<le> k"
proof (induction k arbitrary: a)
  case 0
  then have "a \<le> 0" by simp
  then show ?case by (simp add: bitlen.simps)
next
  case (Suc k)
  show ?case
  proof (cases "a \<le> 0")
    case True
    then show ?thesis by (simp add: bitlen.simps)
  next
    case False
    from Suc.prems have "a div 2 < 2 ^ k" by simp
    then have "bitlen (a div 2) \<le> k" by (rule Suc.IH)
    with False show ?thesis by (subst bitlen.simps) simp
  qed
qed

lemma round_double_exact: "\<bar>x\<bar> < 2 ^ 53 \<Longrightarrow> round_double x = x"
  using bitlen_le [of "\<bar>x\<bar>" 53] by (simp add: round_double_def Let_def)

lemma round_double_exact': "\<bar>x\<bar> \<le> 2 ^ 53 \<Longrightarrow> round_double x = x"
proof -
  have pos: "round_double (2 ^ 53) = 2 ^ 53" by code_simp
  have neg: "round_double (- (2 ^ 53)) = - (2 ^ 53)" by code_simp
  assume "\<bar>x\<bar> \<le> 2 ^ 53"
  then consider "\<bar>x\<bar> < 2 ^ 53" | "x = 2 ^ 53" | "x = - (2 ^ 53)" by linarith
  then show ?thesis
    by cases (simp_all only: round_double_exact pos neg)
qed

lemma dadd_exact: "\<bar>x + y\<bar> < 2 ^ 53 \<Longrightarrow> dadd x y = x + y"
  by (simp add: dadd_def round_double_exact)

lemma dadd_exact': "\<bar>x + y\<bar> \<le> 2 ^ 53 \<Longrightarrow> dadd x y = x + y"
  by (simp add: dadd_def round_double_exact')

lemma dadd_stuck: "dadd (2 ^ 53) 1 = 2 ^ 53"
  by code_simp

section \<open>The collectives when their preconditions hold\<close>

lemma bcast_ok:
  assumes "root < length bufs" "list_all (\<lambda>b. cnt \<le> length b) bufs"
  shows "bcast cnt root bufs = Inr (map (\<lambda>b. take cnt (bufs ! root) @ drop cnt b) bufs)"
  using assms by (auto simp: bcast_def list_ex_iff list_all_iff)

lemma scatter_ok:
  assumes "root < length recvbufs" "cnt * length recvbufs \<le> length sendbuf"
    "list_all (\<lambda>b. cnt \<le> length b) recvbufs"
  shows "scatter cnt root sendbuf recvbufs =
           Inr (map (\<lambda>r. take cnt (drop (r * cnt) sendbuf) @ drop cnt (recvbufs ! r))
                  [0..<length recvbufs])"
  using assms by (auto simp: scatter_def list_ex_iff list_all_iff)

lemma gather_ok:
  assumes "root < length sendbufs" "cnt * length sendbufs \<le> length recvbuf"
    "list_all (\<lambda>b. cnt \<le> length b) sendbufs"
  shows "gather cnt root sendbufs recvbuf =
           Inr (concat (map (take cnt) sendbufs) @ drop (cnt * length sendbufs) recvbuf)"
  using assms by (auto simp: gather_def list_ex_iff list_all_iff)

lemma block_length:
  assumes "cnt * P \<le> length xs" "r < P"
  shows "length (take cnt (drop (r * cnt) xs)) = cnt"
proof -
  have "r * cnt + cnt \<le> P * cnt"
    using assms(2) by (metis Suc_leI mult_Suc mult_le_mono1 add.commute)
  with assms(1) show ?thesis by (simp add: mult.commute)
qed

lemma concat_blocks: "concat (map (\<lambda>r. take c (drop (r * c) xs)) [0..<P]) = take (P * c) xs"
proof (induction P)
  case 0
  then show ?case by simp
next
  case (Suc P)
  have "take (P * c) xs @ take c (drop (P * c) xs) = take (P * c + c) xs"
    by (simp add: take_add)
  with Suc show ?case by (simp add: add.commute)
qed

lemma combine_foldl: "combine f acc vs = foldl f acc vs"
  by (induction vs arbitrary: acc) simp_all

lemma combine_max: "combine max (acc::'a::linorder) vs = Max (insert acc (set vs))"
proof (induction vs arbitrary: acc)
  case Nil
  then show ?case by simp
next
  case (Cons v vs)
  have "Max (insert (max acc v) (set vs)) = Max (insert acc (insert v (set vs)))"
    by (cases "set vs = {}") (simp_all add: max.assoc)
  with Cons show ?case by simp
qed

lemma reduce_max_Max:
  assumes "ds \<noteq> []"
  shows "reduce max 0 ds = Inr (Max (set (ds::'a::linorder list)))"
proof -
  from assms have "ds = hd ds # tl ds" by simp
  then have "set ds = insert (hd ds) (set (tl ds))" by (metis list.simps(15))
  then show ?thesis using assms by (simp add: reduce_def combine_max)
qed

lemma deliver_slots:
  "foldl (\<lambda>slots r. slots(r \<mapsto> vals ! r)) m arrival r
     = (if r \<in> set arrival then Some (vals ! r) else m r)"
  by (induction arrival arbitrary: m) auto

lemma deliver_Some: "r \<in> set arrival \<Longrightarrow> deliver arrival vals r = Some (vals ! r)"
  by (simp add: deliver_def deliver_slots)

section \<open>The range sum without rounding\<close>

lemma finite_stride_set: "finite (stride_set n step i)"
proof -
  have "stride_set n step i \<subseteq> {i..n}" by (auto simp: stride_set_def)
  then show ?thesis by (rule finite_subset) simp
qed

lemma stride_set_empty: "n < i \<Longrightarrow> stride_set n step i = {}"
  by (auto simp: stride_set_def)

lemma stride_set_step:
  assumes "1 \<le> step" "i \<le> n"
  shows "stride_set n step i = insert i (stride_set n step (i + step))"
proof (rule set_eqI)
  fix k
  show "k \<in> stride_set n step i \<longleftrightarrow> k \<in> insert i (stride_set n step (i + step))"
  proof
    assume k: "k \<in> stride_set n step i"
    show "k \<in> insert i (stride_set n step (i + step))"
    proof (cases "k = i")
      case True then show ?thesis by simp
    next
      case False
      from k have ik: "i \<le> k" "k \<le> n" "(k - i) mod step = 0" by (auto simp: stride_set_def)
      from ik(3) have "step dvd (k - i)" by auto
      moreover from False ik(1) have "0 < k - i" by simp
      ultimately have "step \<le> k - i" by (rule zdvd_imp_le)
      moreover have "(k - (i + step)) mod step = 0"
        using ik(3) by (metis diff_diff_eq mod_0_imp_dvd dvd_diff dvd_refl dvd_imp_mod_0)
      ultimately show ?thesis using ik by (simp add: stride_set_def)
    qed
  next
    assume k: "k \<in> insert i (stride_set n step (i + step))"
    show "k \<in> stride_set n step i"
    proof (cases "k = i")
      case True with assms show ?thesis by (simp add: stride_set_def)
    next
      case False
      with k have ik: "i + step \<le> k" "k \<le> n" "(k - (i + step)) mod step = 0"
        by (auto simp: stride_set_def)
      have "k - i = (k - (i + step)) + step" by simp
      then have "(k - i) mod step = 0" using ik(3) by (metis mod_add_self2)
      with ik assms show ?thesis by (simp add: stride_set_def)
    qed
  qed
qed

lemma stride_set_fresh: "1 \<le> step \<Longrightarrow> i \<notin> stride_set n step (i + step)"
  by (simp add: stride_set_def)

lemma sum_stride_step:
  "1 \<le> step \<Longrightarrow> i \<le> n \<Longrightarrow>
     \<Sum>(stride_set n step i) = i + \<Sum>(stride_set n step (i + step))"
  by (simp add: stride_set_step finite_stride_set stride_set_fresh)

lemma sum_stride_nonneg: "0 \<le> i \<Longrightarrow> 0 \<le> \<Sum>(stride_set n step i)"
  by (rule sum_nonneg) (simp add: stride_set_def)

lemma sum_loop_exact:
  assumes step: "1 \<le> step" and room: "n + step < 2 ^ 53"
  shows "0 \<le> i \<Longrightarrow> 0 \<le> s \<Longrightarrow> s + \<Sum>(stride_set n step i) < 2 ^ 53 \<Longrightarrow>
           sum_loop n step i s = Some (s + \<Sum>(stride_set n step i))"
proof (induction "nat (n + 1 - i)" arbitrary: i s rule: less_induct)
  case less
  show ?case
  proof (cases "i \<le> n")
    case False
    then show ?thesis by (subst sum_loop.simps) (simp add: stride_set_empty)
  next
    case True
    have split: "\<Sum>(stride_set n step i) = i + \<Sum>(stride_set n step (i + step))"
      using step True by (rule sum_stride_step)
    have rest: "0 \<le> \<Sum>(stride_set n step (i + step))"
      using less.prems(1) step by (intro sum_stride_nonneg) simp
    have i': "dadd i step = i + step"
      using True room less.prems(1) step by (intro dadd_exact) simp
    have s': "dadd s i = s + i"
      using less.prems split rest by (intro dadd_exact) simp
    have "sum_loop n step (i + step) (s + i) = Some (s + i + \<Sum>(stride_set n step (i + step)))"
      using less.prems split step True by (intro less.hyps) simp_all
    then show ?thesis using True i' s' split by (subst sum_loop.simps) simp
  qed
qed

lemma stride_set_residue:
  assumes "1 \<le> P" "0 \<le> r" "r < P"
  shows "stride_set n P r = {k \<in> {0..n}. k mod P = r}"
proof (rule set_eqI)
  fix k
  show "k \<in> stride_set n P r \<longleftrightarrow> k \<in> {k \<in> {0..n}. k mod P = r}"
  proof
    assume "k \<in> stride_set n P r"
    then have k: "r \<le> k" "k \<le> n" "(k - r) mod P = 0" by (auto simp: stride_set_def)
    have "k mod P = ((k - r) + r) mod P" by simp
    also have "\<dots> = ((k - r) mod P + r mod P) mod P" by (simp only: mod_add_eq)
    also have "\<dots> = r" using k(3) assms by simp
    finally show "k \<in> {k \<in> {0..n}. k mod P = r}" using k assms by simp
  next
    assume "k \<in> {k \<in> {0..n}. k mod P = r}"
    then have k: "0 \<le> k" "k \<le> n" "k mod P = r" by auto
    have "r \<le> k" using k(1,3) assms by (metis zmod_le_nonneg_dividend)
    moreover have "(k - r) mod P = 0" using k(3) by (simp add: mod_eq_0_iff_dvd dvd_minus_mod[of P k] flip: k(3))
    ultimately show "k \<in> stride_set n P r" using k by (simp add: stride_set_def)
  qed
qed

lemma sum_over_ranks:
  assumes "1 \<le> P"
  shows "(\<Sum>r\<in>{0..P - 1}. \<Sum>(stride_set n P r)) = \<Sum>{0..n}"
proof -
  have "(\<Sum>r\<in>{0..P - 1}. \<Sum>(stride_set n P r)) = (\<Sum>r\<in>{0..P - 1}. \<Sum>k\<in>{k \<in> {0..n}. k mod P = r}. k)"
    using assms by (intro sum.cong refl) (simp add: stride_set_residue)
  also have "\<dots> = (\<Sum>k\<in>{0..n}. k)"
  proof (rule sum.group)
    show "(\<lambda>k. k mod P) ` {0..n} \<subseteq> {0..P - 1}"
      using assms by (auto simp: pos_mod_bound zle_diff1_eq)
  qed simp_all
  finally show ?thesis by simp
qed

lemma combine_dadd_exact:
  "0 \<le> acc \<Longrightarrow> list_all (\<lambda>v. 0 \<le> v) vs \<Longrightarrow> acc + sum_list vs < 2 ^ 53 \<Longrightarrow>
     combine dadd acc vs = acc + sum_list vs"
proof (induction vs arbitrary: acc)
  case Nil
  then show ?case by simp
next
  case (Cons v vs)
  have "0 \<le> sum_list vs" using Cons.prems(2) by (intro sum_list_nonneg) (simp add: list_all_iff)
  then have "dadd acc v = acc + v" using Cons.prems by (intro dadd_exact) simp
  moreover have "combine dadd (acc + v) vs = acc + v + sum_list vs"
    using Cons.prems by (intro Cons.IH) simp_all
  ultimately show ?case by simp
qed

lemma bcast_input:
  assumes "1 \<le> csize"
  shows "bcast 1 0 (map (\<lambda>r. [if r = 0 then input else uninit r]) [0..csize - 1])
           = Inr (map (\<lambda>r. [input]) [0..csize - 1])"
proof -
  have ranks: "[0..csize - 1] = 0 # [1..csize - 1]"
    using assms by (subst upto_rec1) simp_all
  show ?thesis
    by (auto simp add: ranks bcast_def list_ex_iff)
qed

lemma map2_same: "map2 f xs (map g xs) = map (\<lambda>x. f x (g x)) xs"
  by (induction xs) simp_all

lemma gauss_bound:
  assumes "0 \<le> n" "n * (n + 1) < 2 ^ 54"
  shows "\<Sum>{0..n} < (2::int) ^ 53" and "n < 2 ^ 27"
proof -
  have "\<Sum>{0..n} = n * (n + 1) div 2"
    using assms(1) Sum_Icc_int [of 0 n] by simp
  then show "\<Sum>{0..n} < (2::int) ^ 53" using assms(2) by simp
  show "n < 2 ^ 27"
  proof (rule ccontr)
    assume "\<not> n < 2 ^ 27"
    then have "(2::int) ^ 27 \<le> n" by simp
    then have "(2::int) ^ 27 * 2 ^ 27 \<le> n * (n + 1)"
      by (intro mult_mono) simp_all
    with assms(2) show False by simp
  qed
qed

lemma stride_sum_le:
  assumes "1 \<le> P" "0 \<le> r" "r < P"
  shows "\<Sum>(stride_set n P r) \<le> \<Sum>{0..n}"
proof -
  have "stride_set n P r \<subseteq> {0..n}" using assms by (auto simp: stride_set_def)
  then show ?thesis by (intro sum_mono2) auto
qed

lemma local_sum_exact:
  assumes "1 \<le> csize" "csize < 2 ^ 31" "0 \<le> n" "n * (n + 1) < 2 ^ 54" "0 \<le> r" "r < csize"
  shows "local_sum csize r n = Some (\<Sum>(stride_set n csize r))"
proof -
  have "n + csize < 2 ^ 53" using gauss_bound(2) [OF assms(3,4)] assms(2) by simp
  moreover have "\<Sum>(stride_set n csize r) < 2 ^ 53"
    using stride_sum_le [OF assms(1,5,6), of n] gauss_bound(1) [OF assms(3,4)] by simp
  ultimately show ?thesis
    unfolding local_sum_def using sum_loop_exact [of csize n r 0] assms by simp
qed

lemma parallel_sum_exact:
  assumes "1 \<le> csize" "csize < 2 ^ 31" "0 \<le> n" "n * (n + 1) < 2 ^ 54"
  shows "parallel_sum_main csize n uninit = Inr (\<Sum>{0..n})"
proof -
  let ?ranks = "[0..csize - 1]"
  let ?vs = "map (\<lambda>r. \<Sum>(stride_set n csize r)) ?ranks"
  have ranks: "?ranks = 0 # [1..csize - 1]"
    using assms(1) by (subst upto_rec1) simp_all
  have sums: "map (\<lambda>r. local_sum csize r n) ?ranks = map (\<lambda>r. Some (\<Sum>(stride_set n csize r))) ?ranks"
    using assms by (intro map_cong refl local_sum_exact) auto
  have total: "sum_list ?vs = \<Sum>{0..n}"
    using sum_over_ranks [OF assms(1), of n]
    by (simp add: sum_list_distinct_conv_sum_set)
  have nonneg: "list_all (\<lambda>v. 0 \<le> v) ?vs"
    by (auto simp: list_all_iff intro: sum_stride_nonneg)
  have "?vs \<noteq> []" using ranks by simp
  then have "?vs = hd ?vs # tl ?vs" by simp
  moreover have "0 \<le> hd ?vs" using ranks sum_stride_nonneg [of 0 n csize] by simp
  moreover have "list_all (\<lambda>v. 0 \<le> v) (tl ?vs)" using nonneg ranks by simp
  moreover have "hd ?vs + sum_list (tl ?vs) = sum_list ?vs" using ranks by simp
  ultimately have "combine dadd (hd ?vs) (tl ?vs) = sum_list ?vs"
    using combine_dadd_exact [of "hd ?vs" "tl ?vs"] total gauss_bound(1) [OF assms(3,4)] by simp
  then have red: "reduce dadd 0 ?vs = Inr (\<Sum>{0..n})"
    using ranks total by (simp add: reduce_def)
  show ?thesis
    unfolding parallel_sum_main_def Let_def bcast_input [OF assms(1)]
    by (auto simp add: map2_same sums list_ex_iff comp_def red simp del: upto.simps)
qed

lemma local_sum_empty: "n < r \<Longrightarrow> local_sum csize r n = Some 0"
  unfolding local_sum_def by (subst sum_loop.simps) simp

lemma combine_dadd_zeros: "combine dadd 0 (map (\<lambda>r. 0) rs) = 0"
  using combine_dadd_exact [of 0 "map (\<lambda>r. 0) rs"] by (simp add: list_all_iff)

lemma parallel_sum_negative:
  assumes "1 \<le> csize" "n < 0"
  shows "parallel_sum_main csize n uninit = Inr 0"
proof -
  let ?ranks = "[0..csize - 1]"
  have ranks: "?ranks = 0 # [1..csize - 1]"
    using assms(1) by (subst upto_rec1) simp_all
  have sums: "map (\<lambda>r. local_sum csize r n) ?ranks = map (\<lambda>r. Some 0) ?ranks"
    using assms(2) by (intro map_cong refl local_sum_empty) auto
  have "combine dadd 0 (map (\<lambda>r. 0) [1..csize - 1]) = 0"
    by (rule combine_dadd_zeros)
  then have red: "reduce dadd 0 (map (\<lambda>r. 0) ?ranks) = Inr 0"
    by (simp add: ranks reduce_def)
  show ?thesis
    unfolding parallel_sum_main_def Let_def bcast_input [OF assms(1)]
    by (auto simp add: map2_same sums list_ex_iff comp_def red simp del: upto.simps)
qed

lemma parallel_sum_ignores_uninit:
  "parallel_sum_main csize input uninit = parallel_sum_main csize input uninit'"
proof (cases "1 \<le> csize")
  case True
  then show ?thesis
    unfolding parallel_sum_main_def Let_def bcast_input [OF True] by simp
next
  case False
  then have "[0..csize - 1] = []" by simp
  then show ?thesis by (simp add: parallel_sum_main_def)
qed

section \<open>A run of the range sum that never ends\<close>

lemma sum_loop_stuck_aux:
  assumes c: "dadd c 1 = c" and run: "sum_loop n step i s = Some y"
  shows "\<not> (c \<le> n \<and> step = 1 \<and> i = c)"
proof (rule sum_loop.raw_induct
    [where P = "\<lambda>n step i s y. \<not> (c \<le> n \<and> step = 1 \<and> i = c)", OF _ run])
  fix loop' :: "int \<Rightarrow> int \<Rightarrow> int \<Rightarrow> int \<Rightarrow> int option" and n step i s y
  assume IH: "\<And>n step i s y. loop' n step i s = Some y \<Longrightarrow> \<not> (c \<le> n \<and> step = 1 \<and> i = c)"
    and body: "(if i \<le> n then loop' n step (dadd i step) (dadd s i) else Some s) = Some y"
  show "\<not> (c \<le> n \<and> step = 1 \<and> i = c)"
  proof
    assume a: "c \<le> n \<and> step = 1 \<and> i = c"
    then have le: "i \<le> n" by simp
    have "dadd i step = i" using a c by simp
    with body le have "loop' n step i (dadd s i) = Some y" by simp
    from IH [OF this] a show False by simp
  qed
qed

lemma sum_loop_stuck: "dadd c 1 = c \<Longrightarrow> c \<le> n \<Longrightarrow> sum_loop n 1 c s = None"
  using sum_loop_stuck_aux [of c n 1 c s] by (cases "sum_loop n 1 c s") auto

lemma sum_loop_reaches:
  assumes "c \<le> 2 ^ 53" "dadd c 1 = c" "c \<le> n"
  shows "0 \<le> i \<Longrightarrow> i \<le> c \<Longrightarrow> sum_loop n 1 i s = None"
proof (induction "nat (c - i)" arbitrary: i s rule: less_induct)
  case less
  show ?case
  proof (cases "i = c")
    case True
    with assms show ?thesis by (simp add: sum_loop_stuck)
  next
    case False
    with less.prems have lt: "i < c" by simp
    then have "dadd i 1 = i + 1" using less.prems(1) assms(1) by (intro dadd_exact') simp
    moreover have "sum_loop n 1 (i + 1) (dadd s i) = None"
      using lt less.prems by (intro less.hyps) simp_all
    ultimately show ?thesis using lt assms(3) by (subst sum_loop.simps) simp
  qed
qed

lemma never_returns_aux: "local_sum 1 0 (2 ^ 53 + 2) = None"
  unfolding local_sum_def using dadd_stuck by (intro sum_loop_reaches [of "2 ^ 53"]) simp_all

section \<open>The loops of the matrix-vector product\<close>

lemma returnSize_length: "returnSize f = length f"
  by (induction f) simp_all

lemma load_loop_ok:
  "it + length f \<le> length res \<Longrightarrow>
     load_loop f res it = Inr (take it res @ f @ drop (it + length f) res)"
proof (induction f arbitrary: res it)
  case Nil
  then show ?case by simp
next
  case (Cons x f)
  then have lt: "it < length res" by simp
  have "load_loop f (res[it := x]) (Suc it)
          = Inr (take (Suc it) (res[it := x]) @ f @ drop (Suc it + length f) (res[it := x]))"
    using Cons.prems by (intro Cons.IH) simp
  moreover have "take (Suc it) (res[it := x]) = take it res @ [x]"
    using lt by (simp add: take_Suc_conv_app_nth)
  ultimately show ?case using lt by simp
qed

lemma loadVec_ok: "length f = n \<Longrightarrow> loadVec junk f n = Inr f"
  using load_loop_ok [of 0 f "new_double junk n"] by (simp add: loadVec_def new_double_def)

lemma loadMat_ok: "length f = n * n \<Longrightarrow> loadMat junk f n = Inr f"
  using load_loop_ok [of 0 f "new_double junk (n * n)"] by (simp add: loadMat_def new_double_def)

lemma logRes_loop_ok:
  "i \<le> n \<Longrightarrow> n \<le> length res \<Longrightarrow>
     logRes_loop fmt res n i f = Inr (f @ concat (map (\<lambda>x. fmt x @ '' '') (take (n - i) (drop i res))))"
proof (induction "n - i" arbitrary: i f)
  case 0
  then have "i = n" by simp
  then show ?case by (subst logRes_loop.simps) simp
next
  case (Suc k)
  then have lt: "i < n" "i < length res" by simp_all
  have k: "k = n - Suc i" using Suc.hyps(2) by simp
  have d: "drop i res = res ! i # drop (Suc i) res"
    using lt(2) by (rule Cons_nth_drop_Suc [symmetric])
  have n: "n - i = Suc (n - Suc i)" using lt(1) by simp
  have tk: "take (n - i) (drop i res) = res ! i # take (n - Suc i) (drop (Suc i) res)"
    by (simp only: d n take_Suc_Cons)
  have rec: "logRes_loop fmt res n (Suc i) (f @ fmt (res ! i) @ '' '')
      = Inr ((f @ fmt (res ! i) @ '' '') @ concat (map (\<lambda>x. fmt x @ '' '') (take (n - Suc i) (drop (Suc i) res))))"
    using lt Suc.prems k by (intro Suc.hyps(1)) simp_all
  have "logRes_loop fmt res n i f = logRes_loop fmt res n (Suc i) (f @ fmt (res ! i) @ '' '')"
    using lt by (subst logRes_loop.simps) simp
  also note rec
  finally show ?case by (simp only: tk) simp
qed

lemma logRes_ok: "logRes fmt res (length res) = Inr (concat (map (\<lambda>x. fmt x @ '' '') res))"
  using logRes_loop_ok [of 0 "length res" res fmt "[]"] by (simp add: logRes_def)

lemma spaced_trailing: "xs \<noteq> [] \<Longrightarrow> concat (map (\<lambda>x. x @ '' '') xs) = spaced xs @ '' ''"
  by (induction xs rule: spaced.induct) simp_all

lemma row_loop_ok:
  "j \<le> dim \<Longrightarrow> dim \<le> length vec \<Longrightarrow> i * dim + dim \<le> length mat \<Longrightarrow>
     row_loop mat vec dim i j s = Inr (foldl (\<lambda>s j. s + mat ! (i * dim + j) * vec ! j) s [j..<dim])"
proof (induction "dim - j" arbitrary: j s)
  case 0
  then show ?case by (subst row_loop.simps) simp
next
  case (Suc k)
  then have lt: "j < dim" by simp
  have "row_loop mat vec dim i (Suc j) (s + mat ! (i * dim + j) * vec ! j)
      = Inr (foldl (\<lambda>s j. s + mat ! (i * dim + j) * vec ! j) (s + mat ! (i * dim + j) * vec ! j) [Suc j..<dim])"
    using Suc.prems Suc.hyps(2) lt by (intro Suc.hyps(1)) simp_all
  then show ?case using lt Suc.prems by (subst row_loop.simps) (simp add: upt_rec [of j dim])
qed

lemma row_loop_dot:
  "dim \<le> length vec \<Longrightarrow> i * dim + dim \<le> length mat \<Longrightarrow>
     row_loop mat vec dim i 0 0 = Inr (dot_row mat vec dim i)"
  using row_loop_ok [of 0 dim vec i mat 0] by (simp add: dot_row_def)

lemma rows_loop_ok:
  "i \<le> to \<Longrightarrow> to \<le> length lres \<Longrightarrow> dim \<le> length vec \<Longrightarrow> to * dim \<le> length mat \<Longrightarrow>
     rows_loop mat vec dim to i lres
       = Inr (take i lres @ map (dot_row mat vec dim) [i..<to] @ drop to lres)"
proof (induction "to - i" arbitrary: i lres)
  case 0
  then show ?case by (subst rows_loop.simps) simp
next
  case (Suc k)
  then have lt: "i < to" "i < length lres" by simp_all
  have "i * dim + dim \<le> to * dim"
    using lt(1) by (metis Suc_leI mult_Suc mult_le_mono1 add.commute)
  then have row: "row_loop mat vec dim i 0 0 = Inr (dot_row mat vec dim i)"
    using Suc.prems by (intro row_loop_dot) simp_all
  let ?l = "lres[i := dot_row mat vec dim i]"
  have "rows_loop mat vec dim to (Suc i) ?l
          = Inr (take (Suc i) ?l @ map (dot_row mat vec dim) [Suc i..<to] @ drop to ?l)"
    using Suc.prems Suc.hyps(2) lt by (intro Suc.hyps(1)) simp_all
  moreover have "take (Suc i) ?l = take i lres @ [dot_row mat vec dim i]"
    using lt by (simp add: take_Suc_conv_app_nth)
  moreover have "drop to ?l = drop to lres" using lt by simp
  ultimately show ?case
    using lt row by (subst rows_loop.simps) (simp add: upt_rec [of i to])
qed

lemma kernel_ok:
  "dim \<le> length vec \<Longrightarrow> to * dim \<le> length mat \<Longrightarrow>
     rows_loop mat vec dim to 0 (new_double junk to) = Inr (map (dot_row mat vec dim) [0..<to])"
  using rows_loop_ok [of 0 to "new_double junk to" dim vec mat] by (simp add: new_double_def)

lemma dot_row_sum:
  fixes block vec :: "'a::semiring_0 list"
  shows "dot_row block vec N i = (\<Sum>j<N. block ! (i * N + j) * vec ! j)"
proof -
  have "foldl (\<lambda>s j. s + block ! (i * N + j) * vec ! j) s [0..<n]
          = s + (\<Sum>j<n. block ! (i * N + j) * vec ! j)" for s n
    by (induction n) (simp_all add: add.assoc)
  then show ?thesis by (simp add: dot_row_def)
qed

lemma div_mult_le_div:
  fixes dim csize :: nat
  shows "dim div csize * dim \<le> dim * dim div csize"
proof (cases "csize = 0")
  case True
  then show ?thesis by simp
next
  case False
  have "dim div csize * dim * csize = (dim div csize * csize) * dim" by (simp add: ac_simps)
  also have "\<dots> \<le> dim * dim" by (intro mult_le_mono1) simp
  finally have "dim div csize * dim * csize \<le> dim * dim" .
  then show ?thesis using False by (simp add: less_eq_div_iff_mult_less_eq)
qed

lemma truncated:
  fixes N P :: nat
  assumes "N mod P \<noteq> 0"
  shows "P * (N div P) < N"
proof -
  have "N = P * (N div P) + N mod P" by simp
  with assms show ?thesis by linarith
qed

lemma main_run:
  fixes vfile mfile :: "'a::{zero,plus,times} list"
  assumes P: "1 \<le> csize" and M: "length mfile = length vfile * length vfile"
    and O: "int (length vfile) * int (length vfile) < 2 ^ 31"
  shows "matrix_vector_main fmt csize vfile mfile jdim junk =
     (let dim = length vfile; msize = dim * dim div csize; to = dim div csize;
          res = concat (map (\<lambda>r. map (dot_row (take msize (drop (r * msize) mfile)) vfile dim) [0..<to])
                          [0..<csize])
                @ map junk [to * csize..<dim]
      in ([Bcast, Bcast, Scatter, Gather], Inr (res, concat (map (\<lambda>x. fmt x @ '' '') res))))"
proof -
  define dim where "dim = length vfile"
  define msize where "msize = dim * dim div csize"
  define to where "to = dim div csize"
  define ranks where "ranks = [0..<csize]"
  define block where "block r = take msize (drop (r * msize) mfile)" for r
  define lres where "lres r = map (dot_row (block r) vfile dim) [0..<to]" for r
  define res where "res = concat (map lres ranks) @ map junk [to * csize..<dim]"
  have ranks0: "ranks = 0 # [1..<csize]"
    using P by (simp add: ranks_def upt_rec)
  have inr: "r < csize" if "r \<in> set ranks" for r
    using that by (simp add: ranks_def)
  \<comment> \<open>the broadcast of \<open>dim\<close>\<close>
  have b1: "bcast 1 0 (map (\<lambda>r. [if r = 0 then returnSize vfile else jdim r]) ranks)
              = Inr (map (\<lambda>r. [dim]) ranks)"
    by (auto simp add: ranks0 bcast_def list_ex_iff returnSize_length dim_def)
  have dimr: "hd (map (\<lambda>r. [dim]) ranks ! r) = dim" if "r < csize" for r
    using that by (simp add: ranks_def)
  \<comment> \<open>the vector\<close>
  have lv: "loadVec junk vfile dim = Inr vfile"
    by (rule loadVec_ok) (simp add: dim_def)
  have b2: "bcast dim 0 (map (\<lambda>r. if r = 0 then vfile else new_double junk dim) ranks)
              = Inr (map (\<lambda>r. vfile) ranks)"
  proof -
    have "bcast dim 0 (map (\<lambda>r. if r = 0 then vfile else new_double junk dim) ranks)
            = Inr (map (\<lambda>b. take dim (map (\<lambda>r. if r = 0 then vfile else new_double junk dim) ranks ! 0)
                           @ drop dim b)
                    (map (\<lambda>r. if r = 0 then vfile else new_double junk dim) ranks))"
      using P by (intro bcast_ok) (simp_all add: ranks_def list_all_iff dim_def new_double_def)
    also have "\<dots> = Inr (map (\<lambda>r. vfile) ranks)"
      using P by (simp add: ranks0 dim_def new_double_def)
    finally show ?thesis .
  qed
  \<comment> \<open>the matrix\<close>
  have ov: "\<not> list_ex (\<lambda>r. 2 ^ 31 \<le> int dim * int dim) ranks"
    using O by (simp add: list_ex_iff dim_def)
  have lm: "loadMat junk mfile dim = Inr mfile"
    by (rule loadMat_ok) (simp add: dim_def M)
  have fit: "msize * csize \<le> length mfile"
    by (simp add: msize_def M dim_def)
  have sc: "scatter msize 0 mfile (map (\<lambda>r. new_double junk msize) ranks) = Inr (map block ranks)"
  proof -
    have "scatter msize 0 mfile (map (\<lambda>r. new_double junk msize) ranks)
            = Inr (map (\<lambda>r. take msize (drop (r * msize) mfile)
                             @ drop msize (map (\<lambda>r. new_double junk msize) ranks ! r))
                     [0..<length (map (\<lambda>r. new_double junk msize) ranks)])"
      using P fit by (intro scatter_ok) (simp_all add: ranks_def list_all_iff new_double_def)
    also have "\<dots> = Inr (map block ranks)"
      by (simp add: ranks_def block_def new_double_def)
    finally show ?thesis .
  qed
  \<comment> \<open>the kernel\<close>
  have blen: "length (block r) = msize" if "r < csize" for r
    unfolding block_def using fit that by (intro block_length [of _ csize]) simp_all
  have kern: "rows_loop (block r) vfile dim to 0 (new_double junk to) = Inr (lres r)"
    if "r < csize" for r
    unfolding lres_def using blen [OF that] div_mult_le_div [of dim csize]
    by (intro kernel_ok) (simp_all add: dim_def to_def msize_def)
  \<comment> \<open>the gather\<close>
  have tofit: "to * csize \<le> dim" by (simp add: to_def)
  have ga: "gather to 0 (map lres ranks) (new_double junk dim) = Inr res"
  proof -
    have "gather to 0 (map lres ranks) (new_double junk dim)
            = Inr (concat (map (take to) (map lres ranks))
                   @ drop (to * length (map lres ranks)) (new_double junk dim))"
      using P tofit by (intro gather_ok) (simp_all add: ranks_def list_all_iff lres_def new_double_def)
    also have "\<dots> = Inr res"
      by (simp add: res_def ranks_def lres_def [abs_def] new_double_def drop_map comp_def)
    finally show ?thesis .
  qed
  have "length (concat (map lres ranks)) = to * csize"
    by (simp add: length_concat comp_def lres_def [abs_def] ranks_def sum_list_triv)
  then have rlen: "length res = dim" using tofit by (simp add: res_def)
  have lg: "logRes fmt res dim = Inr (concat (map (\<lambda>x. fmt x @ '' '') res))"
    using logRes_ok [of fmt res] rlen by simp
  have dimr': "hd (map (\<lambda>r. [dim]) ranks ! r) = dim" if "r \<in> set ranks" for r
    using inr [OF that] by (rule dimr)
  have dim0: "hd (map (\<lambda>r. [dim]) ranks ! 0) = dim"
    using P by (intro dimr) simp
  have nth_block: "map block ranks ! r = block r" if "r \<in> set ranks" for r
    using inr [OF that] by (simp add: ranks_def)
  have nth_vec: "map (\<lambda>r. vfile) ranks ! r = vfile" if "r \<in> set ranks" for r
    using inr [OF that] by (simp add: ranks_def)
  have kern': "rows_loop (block r) vfile dim to 0 (new_double junk to) = Inr (lres r)"
    if "r \<in> set ranks" for r
    using inr [OF that] by (rule kern)
  have none: "find isl (map (\<lambda>r. Inr (lres r)) ranks) = None"
    by (simp add: find_None_iff)
  have pr: "map projr (map (\<lambda>r. Inr (lres r)) ranks) = map lres ranks"
    by simp
  have main: "matrix_vector_main fmt csize vfile mfile jdim junk
                = ([Bcast, Bcast, Scatter, Gather], Inr (res, concat (map (\<lambda>x. fmt x @ '' '') res)))"
    unfolding matrix_vector_main_def Let_def ranks_def [symmetric]
    apply (simp only: b1 sum.case dimr' dim0 cong: map_cong list_ex_cong)
    apply (simp only: lv sum.case b2 ov if_False lm msize_def [symmetric] to_def [symmetric] sc
             nth_block nth_vec kern' none pr option.case ga lg cong: map_cong)
    done
  show ?thesis
    unfolding main
    by (simp add: Let_def res_def lres_def [abs_def] block_def dim_def msize_def to_def ranks_def)
qed

section \<open>Shards\<close>

lemma shard_ranges_concat:
  "concat (map (\<lambda>r. [r * c..<r * c + c]) [0..<P]) = [0..<P * c]"
proof (induction P)
  case 0
  then show ?case by simp
next
  case (Suc P)
  have "[0..<P * c] @ [P * c..<P * c + c] = [0..<P * c + c]"
    by (metis le_add1 upt_add_eq_append zero_le)
  with Suc show ?case by (simp add: add.commute)
qed

lemma shard_unique:
  fixes c k P :: nat
  assumes "0 < c" "k < P * c"
  shows "\<exists>!r. r < P \<and> r * c \<le> k \<and> k < r * c + c"
proof (rule ex1I [of _ "k div c"])
  have "k div c < P" using assms by (simp add: less_mult_imp_div_less)
  moreover have "k div c * c \<le> k" by simp
  moreover have "k < k div c * c + c"
    using assms(1) by (metis add.commute dividend_less_div_times mult.commute)
  ultimately show "k div c < P \<and> k div c * c \<le> k \<and> k < k div c * c + c" by simp
next
  fix r
  assume "r < P \<and> r * c \<le> k \<and> k < r * c + c"
  then have "c * r \<le> k" "k < c * Suc r" by (simp_all add: mult.commute)
  then show "r = k div c" by (rule div_nat_eqI [symmetric])
qed

section \<open>The claims\<close>

text \<open>
  C1 (amended). On a group of \<open>csize\<close> ranks, \<open>1 \<le> csize < 2 ^ 31\<close>, and for a whole upper
  bound \<open>n \<ge> 0\<close> with \<open>n * (n + 1) < 2 ^ 54\<close>, so that the total stays below \<open>2 ^ 53\<close>
  and no sum of \<open>double\<close>s is rounded, the cyclic sums of the ranks (rank \<open>r\<close> adds
  \<open>r, r + csize, r + 2 * csize, ...\<close> while \<open>i \<le> n\<close>), reduced with the sum at rank 0, equal
  the sequential sum of \<open>i\<close> for \<open>i = 0, ..., n\<close>. In particular \<open>n = 10\<close> on 4 ranks gives
  55, and \<open>n = 0\<close> gives 0 on any such group.
\<close>

theorem range_sum_total:
  assumes "1 \<le> csize" "csize < 2 ^ 31" "0 \<le> n" "n * (n + 1) < 2 ^ 54"
  shows "parallel_sum_main csize n uninit = Inr (\<Sum>{0..n})
       \<and> parallel_sum_main 4 10 uninit = Inr 55
       \<and> parallel_sum_main csize 0 uninit = Inr 0"
proof -
  have "parallel_sum_main csize n uninit = Inr (\<Sum>{0..n})"
    using assms by (rule parallel_sum_exact)
  moreover have "parallel_sum_main 4 10 uninit = Inr (\<Sum>{0..10})"
    by (rule parallel_sum_exact) simp_all
  moreover have "\<Sum>{0..10::int} = 55"
    by (simp add: Sum_Icc_int)
  moreover have "parallel_sum_main csize 0 uninit = Inr (\<Sum>{0..0})"
    using assms(1,2) by (intro parallel_sum_exact) simp_all
  ultimately show ?thesis by simp
qed

theorem range_sum_total_witness:
  "(1::int) \<le> 4 \<and> (4::int) < 2 ^ 31 \<and> (0::int) \<le> 10 \<and> (10::int) * (10 + 1) < 2 ^ 54
     \<and> parallel_sum_main 4 10 (\<lambda>r. 0) = Inr 55 \<and> parallel_sum_main 4 0 (\<lambda>r. 0) = Inr 0"
  using range_sum_total [of 4 10 "\<lambda>r. 0"] by (simp add: Sum_Icc_int)

text \<open>
  C1 as stated, for every \<open>n \<ge> 0\<close>, fails: on one rank with \<open>n = 2 ^ 53 + 2\<close> the index
  reaches \<open>2 ^ 53\<close>, where \<open>i += step\<close> rounds back to \<open>2 ^ 53\<close>; the loop never leaves
  and rank 0 never has a total.
\<close>

theorem range_sum_never_returns:
  "parallel_sum_main 1 (2 ^ 53 + 2) (\<lambda>r. 0) = Inl NeverReturns"
  using never_returns_aux by (simp add: parallel_sum_main_def Let_def bcast_def upto.simps)

text \<open>
  C2. For \<open>P \<ge> 1\<close> and \<open>N mod P = 0\<close> the shard of rank \<open>r\<close> is offset \<open>r * (N / P)\<close>, length
  \<open>N / P\<close>. The shards of the ranks \<open>0, ..., P - 1\<close>, one after the other, are exactly the
  indices \<open>0, ..., N - 1\<close>: every index lies in the shard of exactly one rank, no shard
  reaches beyond \<open>N\<close>, and a scatter with the count \<open>N / P\<close> hands rank \<open>r\<close> the elements
  at the indices of its shard.
\<close>

theorem shard_partition:
  assumes "1 \<le> P" "N mod P = 0"
  shows "shard N P r = (r * (N div P), N div P)
       \<and> concat (map (\<lambda>r. [fst (shard N P r)..<fst (shard N P r) + snd (shard N P r)]) [0..<P])
           = [0..<N]
       \<and> (\<forall>k<N. \<exists>!r. r < P \<and> in_shard k (shard N P r))
       \<and> (\<forall>r<P. \<forall>k. in_shard k (shard N P r) \<longrightarrow> k < N)
       \<and> (\<forall>arr recvbufs. length arr = N \<and> length recvbufs = P
              \<and> list_all (\<lambda>b. length b = N div P) recvbufs
            \<longrightarrow> scatter (N div P) 0 arr recvbufs
                = Inr (map (\<lambda>r. map ((!) arr) [fst (shard N P r)..<fst (shard N P r) + snd (shard N P r)])
                         [0..<P]))"
proof -
  let ?c = "N div P"
  have full: "P * ?c = N" using assms(2) by (auto simp: mod_eq_0_iff_dvd)
  have c1: "shard N P r = (r * ?c, ?c)" by (simp add: shard_def)
  have c2: "concat (map (\<lambda>r. [fst (shard N P r)..<fst (shard N P r) + snd (shard N P r)]) [0..<P])
              = [0..<N]"
    using shard_ranges_concat [of ?c P] full by (simp add: shard_def)
  have c3: "\<exists>!r. r < P \<and> in_shard k (shard N P r)" if "k < N" for k
  proof -
    have "0 < ?c" using that full by (cases "?c = 0") auto
    then show ?thesis
      using shard_unique [of ?c k P] that full by (simp add: shard_def in_shard_def)
  qed
  have c4: "k < N" if "r < P" "in_shard k (shard N P r)" for r k
  proof -
    have "r * ?c + ?c \<le> P * ?c"
      using that(1) by (metis Suc_leI mult_Suc mult_le_mono1 add.commute)
    with that(2) full show ?thesis by (simp add: shard_def in_shard_def)
  qed
  have c5: "scatter ?c 0 arr recvbufs
       = Inr (map (\<lambda>r. map ((!) arr) [fst (shard N P r)..<fst (shard N P r) + snd (shard N P r)])
                [0..<P])"
    if A: "length arr = N" and B: "length recvbufs = P"
      and C: "list_all (\<lambda>b. length b = ?c) recvbufs"
    for arr :: "'a list" and recvbufs
  proof -
    have "scatter ?c 0 arr recvbufs
            = Inr (map (\<lambda>r. take ?c (drop (r * ?c) arr) @ drop ?c (recvbufs ! r)) [0..<length recvbufs])"
      using A B C assms(1) full by (intro scatter_ok) (simp_all add: list_all_iff mult.commute)
    moreover have "take ?c (drop (r * ?c) arr) @ drop ?c (recvbufs ! r)
                     = map ((!) arr) [r * ?c..<r * ?c + ?c]" if r: "r < P" for r
    proof -
      have "r * ?c + ?c \<le> P * ?c"
        using r by (metis Suc_leI mult_Suc mult_le_mono1 add.commute)
      then have "r * ?c + ?c \<le> length arr" using full \<open>length arr = N\<close> by simp
      then have "take ?c (drop (r * ?c) arr) = map ((!) arr) [r * ?c..<r * ?c + ?c]"
        by (simp add: list_eq_iff_nth_eq)
      moreover have "drop ?c (recvbufs ! r) = []"
        using B C r by (simp add: list_all_length)
      ultimately show ?thesis by simp
    qed
    ultimately show ?thesis using B by (simp add: shard_def)
  qed
  from c1 c2 c3 c4 c5 show ?thesis by blast
qed

theorem shard_partition_witness:
  "(1::nat) \<le> 3 \<and> (12::nat) mod 3 = 0
     \<and> map (shard 12 3) [0, 1, 2] = [(0, 4), (4, 4), (8, 4)]
     \<and> concat (map (\<lambda>r. [fst (shard 12 3 r)..<fst (shard 12 3 r) + snd (shard 12 3 r)]) [0..<3])
         = [0..<12]"
proof -
  have h1: "(1::nat) \<le> 3" and h2: "(12::nat) mod 3 = 0" by simp_all
  have c: "concat (map (\<lambda>r. [fst (shard 12 3 r)..<fst (shard 12 3 r) + snd (shard 12 3 r)]) [0..<3])
          = [0..<12]"
    using shard_partition [OF h1 h2, of 0] by blast
  show ?thesis
  proof (intro conjI)
    show "concat (map (\<lambda>r. [fst (shard 12 3 r)..<fst (shard 12 3 r) + snd (shard 12 3 r)]) [0..<3])
          = [0..<12]" by (rule c)
  qed (simp_all add: shard_def)
qed

text \<open>
  C3 (amended). \<open>main\<close> of \<^verbatim>\<open>MPI_Matrix_Vector.c\<close> makes no feasibility check and signals
  no error. For a vector of \<open>N\<close> numbers, a matrix file of \<open>N * N\<close> numbers with
  \<open>N * N\<close> in the range of \<open>int\<close>, and a group of \<open>P \<ge> 1\<close> ranks with \<open>N mod P \<noteq> 0\<close>, both
  broadcasts, the scatter and the gather are issued and the run ends with a result file.
  Each rank computes \<open>N div P\<close> outputs, the index-order dot products of the vector with
  the first \<open>N div P\<close> stretches of \<open>N\<close> elements of its scattered block of
  \<open>N * N div P\<close> matrix elements. The first \<open>P * (N div P) < N\<close> entries of the root's
  result are these outputs in rank order; the entries after them are the uninitialised
  cells of \<open>new double[dim]\<close>, and the file is the whole result as \<open>logRes\<close> writes it.
\<close>

theorem no_partition_check:
  fixes vfile mfile :: "'a::{zero,plus,times} list"
  assumes "1 \<le> csize" "length mfile = length vfile * length vfile"
    "int (length vfile) * int (length vfile) < 2 ^ 31" "length vfile mod csize \<noteq> 0"
  shows "fst (matrix_vector_main fmt csize vfile mfile jdim junk) = [Bcast, Bcast, Scatter, Gather]
       \<and> (\<exists>res file. snd (matrix_vector_main fmt csize vfile mfile jdim junk) = Inr (res, file)
              \<and> length res = length vfile
              \<and> take (csize * (length vfile div csize)) res
                  = concat (map (\<lambda>r. map (dot_row
                                 (take (length vfile * length vfile div csize)
                                    (drop (r * (length vfile * length vfile div csize)) mfile))
                                 vfile (length vfile))
                               [0..<length vfile div csize])
                      [0..<csize])
              \<and> drop (csize * (length vfile div csize)) res
                  = map junk [csize * (length vfile div csize)..<length vfile]
              \<and> file = concat (map (\<lambda>x. fmt x @ '' '') res))
       \<and> csize * (length vfile div csize) < length vfile"
proof -
  let ?dim = "length vfile"
  let ?to = "?dim div csize"
  let ?msize = "?dim * ?dim div csize"
  let ?got = "concat (map (\<lambda>r. map (dot_row (take ?msize (drop (r * ?msize) mfile)) vfile ?dim) [0..<?to])
                        [0..<csize])"
  let ?res = "?got @ map junk [?to * csize..<?dim]"
  have run: "matrix_vector_main fmt csize vfile mfile jdim junk
               = ([Bcast, Bcast, Scatter, Gather], Inr (?res, concat (map (\<lambda>x. fmt x @ '' '') ?res)))"
    using main_run [OF assms(1-3), of fmt jdim junk] by (simp add: Let_def)
  have lt: "csize * ?to < ?dim" using assms(4) by (rule truncated)
  have got: "length ?got = csize * ?to"
    by (simp add: length_concat comp_def sum_list_triv)
  then have "length ?res = ?dim" using lt by (simp add: mult.commute)
  moreover have "take (csize * ?to) ?res = ?got"
    using got by simp
  moreover have "drop (csize * ?to) ?res = map junk [csize * ?to..<?dim]"
    using got by (simp add: mult.commute)
  ultimately show ?thesis using run lt by simp
qed

theorem no_partition_check_witness:
  "(1::nat) \<le> 3 \<and> length (replicate 16 (1::int)) = length (replicate 4 (1::int)) * length (replicate 4 (1::int))
     \<and> int (length (replicate 4 (1::int))) * int (length (replicate 4 (1::int))) < 2 ^ 31
     \<and> length (replicate 4 (1::int)) mod 3 \<noteq> 0
     \<and> fst (matrix_vector_main lf 3 (replicate 4 1) (replicate 16 1) (\<lambda>r. 0) (\<lambda>k. 0))
         = [Bcast, Bcast, Scatter, Gather]
     \<and> snd (matrix_vector_main lf 3 (replicate 4 1) (replicate 16 1) (\<lambda>r. 0) (\<lambda>k. 0))
         = Inr ([4, 4, 4, 0], ''4.000000 4.000000 4.000000 0.000000 '')
     \<and> (3::nat) * (length (replicate 4 (1::int)) div 3) < length (replicate 4 (1::int))"
proof -
  have "snd (matrix_vector_main lf 3 (replicate 4 1) (replicate 16 1) (\<lambda>r. 0) (\<lambda>k. 0))
          = Inr ([4, 4, 4, 0], ''4.000000 4.000000 4.000000 0.000000 '')"
    by code_simp
  then show ?thesis
    using no_partition_check [of 3 "replicate 16 (1::int)" "replicate 4 1" lf "\<lambda>r. 0" "\<lambda>k. 0"]
    by simp
qed

text \<open>
  C3 as stated fails: for \<open>N = 10\<close> and \<open>P = 3\<close> (a vector of ten ones, a matrix of a
  hundred ones) the four collectives are issued and the run ends with a result, not
  with \<open>PartitionError\<close>; nine outputs are gathered and the tenth entry is whatever
  the uninitialised cell holds (here 0).
\<close>

theorem no_partition_error:
  "matrix_vector_main lf 3 (replicate 10 1) (replicate 100 1) (\<lambda>r. 0) (\<lambda>k. 0)
     = ([Bcast, Bcast, Scatter, Gather],
        Inr ([10, 10, 10, 10, 10, 10, 10, 10, 10, 0],
             ''10.000000 10.000000 10.000000 10.000000 10.000000 10.000000 10.000000 10.000000 10.000000 0.000000 ''))
   \<and> snd (matrix_vector_main lf 3 (replicate 10 1) (replicate 100 1) (\<lambda>r. 0) (\<lambda>k. 0))
       \<noteq> Inl PartitionError"
  by code_simp

text \<open>
  C4. For a local block of \<open>rows\<close> rows of \<open>N\<close> elements each, row-major, with \<open>rows * N\<close>
  in the range of \<open>int\<close>, and a vector of length \<open>N\<close>, the kernel returns \<open>rows\<close> outputs;
  output \<open>i\<close> is the sum over \<open>j\<close> of \<open>block[i * N + j] * vector[j]\<close>, accumulated from
  zero in the order \<open>j = 0, ..., N - 1\<close>, whatever the arithmetic of the elements is. For
  \<open>N = 4\<close> on 2 ranks, the vector \<open>[1, 2, 3, 4]\<close> and the 4 x 4 identity matrix, the
  result gathered at rank 0 is \<open>[1, 2, 3, 4]\<close>.
\<close>

theorem kernel_dot_products:
  fixes block vec :: "'a::{zero,plus,times} list"
  assumes "length vec = N" "length block = rows * N" "int rows * int N < 2 ^ 31"
  shows "rows_loop block vec N rows 0 (new_double junk rows) = Inr (map (dot_row block vec N) [0..<rows])
       \<and> snd (matrix_vector_main fmt 2 [1, 2, 3, 4] [1, 0, 0, 0, 0, 1, 0, 0, 0, 0, 1, 0, 0, 0, 0, 1] jdim junk')
           = Inr ([1, 2, 3, 4::int], concat (map (\<lambda>x. fmt x @ '' '') [1, 2, 3, 4]))"
proof -
  have "rows_loop block vec N rows 0 (new_double junk rows) = Inr (map (dot_row block vec N) [0..<rows])"
    using assms(1,2) by (intro kernel_ok) simp_all
  moreover have "snd (matrix_vector_main fmt 2 [1, 2, 3, 4] [1, 0, 0, 0, 0, 1, 0, 0, 0, 0, 1, 0, 0, 0, 0, 1] jdim junk')
           = Inr ([1, 2, 3, 4::int], concat (map (\<lambda>x. fmt x @ '' '') [1, 2, 3, 4]))"
    by (simp add: main_run Let_def dot_row_def upt_rec)
  ultimately show ?thesis by simp
qed

theorem kernel_dot_products_witness:
  "length [1, 2::int] = 2 \<and> length [1, 0, 3, 4::int] = 2 * 2 \<and> int 2 * int 2 < 2 ^ 31
     \<and> rows_loop [1, 0, 3, 4] [1, 2::int] 2 2 0 (new_double (\<lambda>k. 0) 2) = Inr [1, 11]
     \<and> snd (matrix_vector_main lf 2 [1, 2, 3, 4] [1, 0, 0, 0, 0, 1, 0, 0, 0, 0, 1, 0, 0, 0, 0, 1]
              (\<lambda>r. 0) (\<lambda>k. 0))
         = Inr ([1, 2, 3, 4], ''1.000000 2.000000 3.000000 4.000000 '')"
proof -
  have "map (dot_row [1, 0, 3, 4] [1, 2::int] 2) [0..<2] = [1, 11]"
    by (simp add: dot_row_def upt_rec)
  moreover have "concat (map (\<lambda>x. lf x @ '' '') [1, 2, 3, 4]) = ''1.000000 2.000000 3.000000 4.000000 ''"
    by code_simp
  ultimately show ?thesis
    using kernel_dot_products [of "[1, 2::int]" 2 "[1, 0, 3, 4]" 2 "\<lambda>k. 0" lf "\<lambda>r. 0" "\<lambda>k. 0"]
    by simp
qed

text \<open>
  C5. For a root array whose length \<open>N\<close> is divisible by the group size \<open>P\<close>, scattering it
  in blocks of \<open>N / P\<close> elements and gathering the received blocks unchanged gives the root
  the original array, element by element; rank \<open>r\<close>'s block is the part of the array at
  position \<open>r * (N / P)\<close>.
\<close>

theorem gather_scatter_identity:
  assumes "root < P" "length arr mod P = 0" "length recvbufs = P"
    "list_all (\<lambda>b. length arr div P \<le> length b) recvbufs" "length out = length arr"
  shows "\<exists>blocks. scatter (length arr div P) root arr recvbufs = Inr blocks
           \<and> gather (length arr div P) root blocks out = Inr arr
           \<and> list_all (\<lambda>r. take (length arr div P) (blocks ! r)
                             = take (length arr div P) (drop (r * (length arr div P)) arr)) [0..<P]"
proof -
  let ?c = "length arr div P"
  let ?blocks = "map (\<lambda>r. take ?c (drop (r * ?c) arr) @ drop ?c (recvbufs ! r)) [0..<P]"
  have full: "?c * P = length arr" using assms(2) by (auto simp: mod_eq_0_iff_dvd)
  have sc: "scatter ?c root arr recvbufs = Inr ?blocks"
    using assms full scatter_ok [of root recvbufs ?c arr] by simp
  have len: "length (take ?c (drop (r * ?c) arr)) = ?c" if "r < P" for r
    using that full by (intro block_length [of _ P]) simp
  have tk: "take ?c (?blocks ! r) = take ?c (drop (r * ?c) arr)" if "r < P" for r
    using that len [OF that] by simp
  have "map (take ?c) ?blocks = map (\<lambda>r. take ?c (drop (r * ?c) arr)) [0..<P]"
    using tk by (simp add: list_eq_iff_nth_eq)
  then have cc: "concat (map (take ?c) ?blocks) = arr"
    using full by (simp only: concat_blocks) (simp add: mult.commute)
  have "list_all (\<lambda>b. ?c \<le> length b) ?blocks"
    using len by (simp add: list_all_iff)
  then have "gather ?c root ?blocks out = Inr (concat (map (take ?c) ?blocks) @ drop (?c * length ?blocks) out)"
    using assms full by (intro gather_ok) simp_all
  then have ga: "gather ?c root ?blocks out = Inr arr"
    using cc full assms(5) by simp
  have "list_all (\<lambda>r. take ?c (?blocks ! r) = take ?c (drop (r * ?c) arr)) [0..<P]"
    using tk by (simp add: list_all_iff)
  with sc ga show ?thesis by blast
qed

theorem gather_scatter_identity_witness:
  "(1::nat) < 3 \<and> length [1, 2, 3, 4, 5, 6::int] mod 3 = 0
     \<and> scatter 2 1 [1, 2, 3, 4, 5, 6::int] [[0, 0], [0, 0], [0, 0]] = Inr [[1, 2], [3, 4], [5, 6]]
     \<and> gather 2 1 [[1, 2], [3, 4], [5, 6::int]] [9, 9, 9, 9, 9, 9] = Inr [1, 2, 3, 4, 5, 6]"
  using gather_scatter_identity [of 1 3 "[1, 2, 3, 4, 5, 6::int]" "[[0, 0], [0, 0], [0, 0]]" "[9, 9, 9, 9, 9, 9]"]
  by (simp add: scatter_def gather_def upt_rec)

text \<open>
  C6. For every group, every root of the group and every binary operator \<open>f\<close> (sum and \<open>max\<close>
  among them), the reduction leaves at the root the values combined in rank order,
  \<open>f (... (f (f v0 v1) v2) ...) v\<close>, whatever the order \<open>arrival\<close> in which the
  contributions come in: two runs with the same group and the same values give the
  same result.
\<close>

theorem reduce_rank_order:
  assumes "root < length vals" "set arrival = {0..<length vals}"
  shows "reduce f root vals = Inr (foldl f (hd vals) (tl vals))
       \<and> reduce_run f root arrival vals = Inr (foldl f (hd vals) (tl vals))"
proof -
  from assms(1) have ne: "vals \<noteq> []" by auto
  have red: "reduce f root vals = Inr (foldl f (hd vals) (tl vals))"
    using assms(1) by (simp add: reduce_def combine_foldl)
  have slots: "deliver arrival vals r = Some (vals ! r)" if "r < length vals" for r
    using that assms(2) by (intro deliver_Some) simp
  then have "map (\<lambda>r. the (deliver arrival vals r)) [0..<length vals] = vals"
    by (intro nth_equalityI) simp_all
  moreover have "\<not> list_ex (\<lambda>r. deliver arrival vals r = None) [0..<length vals]"
    using slots by (simp add: list_ex_iff)
  ultimately have "reduce_run f root arrival vals = reduce f root vals"
    using assms(1) by (simp add: reduce_run_def)
  with red show ?thesis by simp
qed

theorem reduce_rank_order_witness:
  "(0::nat) < length [10, 3, 4::int] \<and> set [2, 0, 1] = {0..<length [10, 3, 4::int]}
     \<and> reduce (-) 0 [10, 3, 4::int] = Inr ((10 - 3) - 4)
     \<and> reduce_run (-) 0 [2, 0, 1] [10, 3, 4::int] = Inr ((10 - 3) - 4)
     \<and> reduce_run (-) 0 [1, 2, 0] [10, 3, 4::int] = Inr ((10 - 3) - 4)"
proof -
  have a: "set [2, 0, 1] = {0..<length [10, 3, 4::int]}" by auto
  have b: "set [1, 2, 0] = {0..<length [10, 3, 4::int]}" by auto
  show ?thesis
    using reduce_rank_order [of 0 "[10, 3, 4::int]" "[2, 0, 1]" "(-)"]
      reduce_rank_order [of 0 "[10, 3, 4::int]" "[1, 2, 0]" "(-)"] a b
    by simp
qed

text \<open>
  C7. For a group of at least one rank and any durations \<open>ds\<close>, one per rank, the reduction
  with \<open>max\<close> to rank 0 returns exactly the greatest of them, and it returns the same
  for every other assignment of the same durations to the ranks. This is the \<open>elapsed\<close>
  that \<open>main\<close> of \<^verbatim>\<open>MPI_Timing_Max.c\<close> obtains from the ranks' clock readings.
\<close>

theorem reduce_max_exact:
  assumes "ds \<noteq> []"
  shows "reduce max 0 ds = Inr (Max (set (ds::'a::{minus,linorder} list)))
       \<and> (\<forall>ds'. mset ds' = mset ds \<longrightarrow> reduce max 0 ds' = reduce max 0 ds)
       \<and> (\<forall>local_start local_finish.
             map2 (\<lambda>start finish. finish - start) local_start local_finish = ds
             \<longrightarrow> timing_max_main local_start local_finish = Inr (Max (set ds)))"
proof -
  have "reduce max 0 ds' = reduce max 0 ds" if "mset ds' = mset ds" for ds'
  proof -
    from that have "set ds' = set ds" by (rule mset_eq_setD)
    moreover from that assms have "ds' \<noteq> []" by auto
    ultimately show ?thesis using assms by (simp add: reduce_max_Max)
  qed
  then show ?thesis using assms by (simp add: reduce_max_Max timing_max_main_def)
qed

theorem reduce_max_exact_witness:
  "[3, 9, 4::int] \<noteq> [] \<and> reduce max 0 [3, 9, 4::int] = Inr 9
     \<and> mset [9, 4, 3::int] = mset [3, 9, 4] \<and> reduce max 0 [9, 4, 3::int] = Inr 9
     \<and> timing_max_main [1, 1, 1::int] [4, 10, 5] = Inr 9"
  using reduce_max_exact [of "[3, 9, 4::int]"] by (simp add: reduce_def timing_max_main_def)

text \<open>
  C8. In every group and for every root rank of the group, a broadcast of \<open>cnt\<close> elements
  succeeds when every buffer has room for them; afterwards the first \<open>cnt\<close> elements of
  every rank's buffer are the root's, the root's own buffer is as it was, and whatever
  the other ranks' buffers held before in those \<open>cnt\<close> places has no effect on the outcome.
  So the range sum does not depend on what the uninitialised \<open>n\<close> of the ranks other than
  0 holds before \<^verbatim>\<open>MPI_Bcast(&n, 1, MPI_DOUBLE, 0, MPI_COMM_WORLD)\<close>.
\<close>

theorem bcast_delivers:
  assumes "root < length bufs" "list_all (\<lambda>b. cnt \<le> length b) bufs"
  shows "(\<exists>bufs'. bcast cnt root bufs = Inr bufs' \<and> length bufs' = length bufs
           \<and> list_all (\<lambda>b. take cnt b = take cnt (bufs ! root)) bufs'
           \<and> bufs' ! root = bufs ! root
           \<and> (\<forall>prior. length prior = length bufs \<and> list_all (\<lambda>b. cnt \<le> length b) prior
                  \<and> prior ! root = bufs ! root
                \<longrightarrow> map (take cnt) (projr (bcast cnt root prior)) = map (take cnt) bufs'))
       \<and> parallel_sum_main csize input uninit = parallel_sum_main csize input uninit'"
proof -
  let ?out = "map (\<lambda>b. take cnt (bufs ! root) @ drop cnt b) bufs"
  have len: "cnt \<le> length (bufs ! root)"
    using assms by (simp add: list_all_length)
  have "bcast cnt root bufs = Inr ?out" using assms by (rule bcast_ok)
  moreover have "length ?out = length bufs" by simp
  moreover have "list_all (\<lambda>b. take cnt b = take cnt (bufs ! root)) ?out"
    using len by (simp add: list_all_iff)
  moreover have "?out ! root = bufs ! root" using assms(1) by simp
  moreover have "map (take cnt) (projr (bcast cnt root prior)) = map (take cnt) ?out"
    if "length prior = length bufs" "list_all (\<lambda>b. cnt \<le> length b) prior"
       "prior ! root = bufs ! root" for prior
  proof -
    have "bcast cnt root prior = Inr (map (\<lambda>b. take cnt (prior ! root) @ drop cnt b) prior)"
      using that assms(1) by (intro bcast_ok) simp_all
    then show ?thesis using that len by (simp add: list_eq_iff_nth_eq)
  qed
  ultimately have "\<exists>bufs'. bcast cnt root bufs = Inr bufs' \<and> length bufs' = length bufs
           \<and> list_all (\<lambda>b. take cnt b = take cnt (bufs ! root)) bufs'
           \<and> bufs' ! root = bufs ! root
           \<and> (\<forall>prior. length prior = length bufs \<and> list_all (\<lambda>b. cnt \<le> length b) prior
                  \<and> prior ! root = bufs ! root
                \<longrightarrow> map (take cnt) (projr (bcast cnt root prior)) = map (take cnt) bufs')"
    by blast
  then show ?thesis
    using parallel_sum_ignores_uninit [of csize input uninit uninit'] by (rule conjI)
qed

theorem bcast_delivers_witness:
  "(1::nat) < length [[1, 2], [3, 4], [5, 6::int]]
     \<and> list_all (\<lambda>b. 2 \<le> length b) [[1, 2], [3, 4], [5, 6::int]]
     \<and> bcast 2 1 [[1, 2], [3, 4], [5, 6::int]] = Inr [[3, 4], [3, 4], [3, 4]]
     \<and> parallel_sum_main 4 10 (\<lambda>r. 77) = parallel_sum_main 4 10 (\<lambda>r. 0)"
  using bcast_delivers [of 1 "[[1, 2], [3, 4], [5, 6::int]]" 2 4 10 "\<lambda>r. 77" "\<lambda>r. 0"]
  by (simp add: bcast_def)

text \<open>
  C9 (amended). \<open>logRes\<close> writes the \<open>n\<close> elements of the result in order, each formatted by
  \<^verbatim>\<open>%lf\<close> and each followed by a single space, and nothing else: for a result that is
  not empty the text is the elements separated by single spaces, and one more space
  after the last.
\<close>

theorem logRes_line:
  "logRes fmt res (length res) = Inr (concat (map (\<lambda>x. fmt x @ '' '') res))
     \<and> (res \<noteq> [] \<longrightarrow> logRes fmt res (length res) = Inr (spaced (map fmt res) @ '' ''))"
  using spaced_trailing [of "map fmt res"] by (simp add: logRes_ok comp_def)

theorem logRes_line_witness:
  "[1, 2, 30::int] \<noteq> [] \<and> logRes lf [1, 2, 30] (length [1, 2, 30::int]) = Inr ''1.000000 2.000000 30.000000 ''"
proof -
  have "spaced (map lf [1, 2, 30]) @ '' '' = ''1.000000 2.000000 30.000000 ''" by code_simp
  then show ?thesis using logRes_line [of lf "[1, 2, 30]"] by simp
qed

text \<open>
  C9 as stated fails: for the result \<open>[1, 2]\<close> the file holds a space after the last
  element, which the elements separated by single spaces do not have.
\<close>

theorem logRes_trailing_space:
  "logRes lf [1, 2] 2 = Inr ''1.000000 2.000000 '' \<and> spaced (map lf [1, 2]) = ''1.000000 2.000000''"
  by code_simp

text \<open>
  C10. In the cyclic range sum, a rank \<open>r\<close> with \<open>n < r\<close> has the partial sum 0: its loop
  body never runs. So for every negative upper bound \<open>n\<close> the total that the reduction
  delivers at rank 0 is exactly 0, on every group of at least one rank.
\<close>

theorem range_sum_empty:
  assumes "1 \<le> csize"
  shows "(n < r \<longrightarrow> local_sum csize r n = Some 0)
       \<and> (n < 0 \<longrightarrow> parallel_sum_main csize n uninit = Inr 0)"
  using assms by (simp add: local_sum_empty parallel_sum_negative)

theorem range_sum_empty_witness:
  "(1::int) \<le> 3 \<and> (1::int) < 2 \<and> local_sum 3 2 1 = Some 0
     \<and> (- 5::int) < 0 \<and> parallel_sum_main 3 (- 5) (\<lambda>r. 7) = Inr 0"
  using range_sum_empty [of 3 1 2 "\<lambda>r. 7"] range_sum_empty [of 3 "- 5" 0 "\<lambda>r. 7"] by simp

end
